theory Spec2Isabelle
  imports Main "HOL-Library.Sublist"
begin

section \<open>Strings and arrays of the host language\<close>

text \<open>
  A source string is a \<open>string\<close>, its characters standing for the UTF-16 code units below
  256; an array of one-letter strings (the tables of the plugboard, the rotors and the
  reflector) is a \<open>char list\<close>. The case conversions are those of the 26 letters: the
  source only ever compares a converted character with the letters A to Z, or converts a
  character it has found to be such a letter, and no other code unit below 256 converts
  to one of them.
\<close>

definition alphabet :: string where
  "alphabet = ''ABCDEFGHIJKLMNOPQRSTUVWXYZ''"

definition lower_alphabet :: string where
  "lower_alphabet = ''abcdefghijklmnopqrstuvwxyz''"

definition toUpperCase :: "char \<Rightarrow> char" where
  "toUpperCase c = (case map_of (zip lower_alphabet alphabet) c of Some u \<Rightarrow> u | None \<Rightarrow> c)"

definition toLowerCase :: "char \<Rightarrow> char" where
  "toLowerCase c = (case map_of (zip alphabet lower_alphabet) c of Some l \<Rightarrow> l | None \<Rightarrow> c)"

text \<open>The test \<^verbatim>\<open>/[A-Za-z]/.test(char)\<close>.\<close>

definition is_letter :: "char \<Rightarrow> bool" where
  "is_letter c \<longleftrightarrow> c \<in> set alphabet \<or> c \<in> set lower_alphabet"

text \<open>\<^verbatim>\<open>Array.prototype.indexOf\<close>: the first index holding the element, \<open>-1\<close> when absent.\<close>

fun indexOf :: "'a list \<Rightarrow> 'a \<Rightarrow> int" where
  "indexOf [] x = - 1"
| "indexOf (y # ys) x =
     (if y = x then 0 else (let i = indexOf ys x in if i < 0 then - 1 else i + 1))"

text \<open>
  An array read \<^verbatim>\<open>arr[signal]\<close>: \<open>None\<close> is the \<^verbatim>\<open>undefined\<close> of an index out of range,
  and \<^verbatim>\<open>arr.indexOf(undefined)\<close> is \<open>-1\<close> on an array of strings.
\<close>

definition at :: "'a list \<Rightarrow> int \<Rightarrow> 'a option" where
  "at xs i = (if 0 \<le> i \<and> i < int (length xs) then Some (xs ! nat i) else None)"

definition indexOf_opt :: "'a list \<Rightarrow> 'a option \<Rightarrow> int" where
  "indexOf_opt xs v = (case v of None \<Rightarrow> - 1 | Some x \<Rightarrow> indexOf xs x)"

text \<open>\<^verbatim>\<open>String.prototype.indexOf\<close>: the first position where the needle starts.\<close>

fun str_indexOf :: "string \<Rightarrow> string \<Rightarrow> int" where
  "str_indexOf [] needle = (if needle = [] then 0 else - 1)"
| "str_indexOf (h # hs) needle =
     (if prefix needle (h # hs) then 0
      else (let i = str_indexOf hs needle in if i < 0 then - 1 else i + 1))"

text \<open>\<^verbatim>\<open>String.prototype.charAt\<close>: the empty string out of range.\<close>

definition charAt :: "string \<Rightarrow> int \<Rightarrow> string" where
  "charAt s i = (if 0 \<le> i \<and> i < int (length s) then [s ! nat i] else [])"

text \<open>The remainder operator \<^verbatim>\<open>%\<close> truncates towards zero.\<close>

definition js_rem :: "int \<Rightarrow> int \<Rightarrow> int" where
  "js_rem a b = (if 0 \<le> a then a mod \<bar>b\<bar> else - ((- a) mod \<bar>b\<bar>))"

text \<open>White space as \<^verbatim>\<open>trim\<close> and the class \<^verbatim>\<open>\s\<close> see it.\<close>

definition is_space :: "char \<Rightarrow> bool" where
  "is_space c \<longleftrightarrow> c \<in> {CHR 0x09, CHR 0x0A, CHR 0x0B, CHR 0x0C, CHR 0x0D, CHR 0x20, CHR 0xA0}"

definition trim :: "string \<Rightarrow> string" where
  "trim s = rev (dropWhile is_space (rev (dropWhile is_space s)))"

text \<open>\<^verbatim>\<open>s.split(sep)\<close> for a one-character separator; \<^verbatim>\<open>"".split(" ")\<close> is \<^verbatim>\<open>[""]\<close>.\<close>

fun split_on :: "char \<Rightarrow> string \<Rightarrow> string list" where
  "split_on sep [] = [[]]"
| "split_on sep (c # cs) =
     (if c = sep then [] # split_on sep cs
      else (case split_on sep cs of w # ws \<Rightarrow> (c # w) # ws | [] \<Rightarrow> [[c]]))"

section \<open>Keyboard\<close>

definition kb_forward :: "string \<Rightarrow> int" where
  "kb_forward letter = str_indexOf alphabet letter"

definition kb_backward :: "int \<Rightarrow> string" where
  "kb_backward signal = charAt alphabet signal"

section \<open>Plugboard\<close>

record plugboard =
  pb_left :: "char list"
  pb_right :: "char list"

text \<open>One turn of the constructor's loop over the pairs.\<close>

definition plug_pair :: "char list \<Rightarrow> string \<Rightarrow> char list" where
  "plug_pair l pair =
     (if length pair \<ge> 2 then
        (let A = toUpperCase (pair ! 0);
             B = toUpperCase (pair ! 1);
             idxA = indexOf l A;
             idxB = indexOf l B
         in if idxA \<noteq> - 1 \<and> idxB \<noteq> - 1
            then l[nat idxA := l ! nat idxB, nat idxB := l ! nat idxA]
            else l)
      else l)"

definition new_Plugboard :: "string \<Rightarrow> plugboard" where
  "new_Plugboard pairsStr =
     \<lparr>pb_left = foldl plug_pair alphabet (split_on CHR '' '' (trim pairsStr)),
      pb_right = alphabet\<rparr>"

definition pb_forward :: "plugboard \<Rightarrow> int \<Rightarrow> int" where
  "pb_forward p signal = indexOf_opt (pb_left p) (at (pb_right p) signal)"

definition pb_backward :: "plugboard \<Rightarrow> int \<Rightarrow> int" where
  "pb_backward p signal = indexOf_opt (pb_right p) (at (pb_left p) signal)"

section \<open>Rotor\<close>

record rotor =
  left :: "char list"
  right :: "char list"
  notch :: string

definition new_Rotor :: "string \<Rightarrow> string \<Rightarrow> rotor" where
  "new_Rotor wiring n = \<lparr>left = alphabet, right = wiring, notch = n\<rparr>"

definition forward :: "rotor \<Rightarrow> int \<Rightarrow> int" where
  "forward r signal = indexOf_opt (left r) (at (right r) signal)"

definition backward :: "rotor \<Rightarrow> int \<Rightarrow> int" where
  "backward r signal = indexOf_opt (right r) (at (left r) signal)"

text \<open>
  \<^verbatim>\<open>xs.push(xs.shift())\<close> and \<^verbatim>\<open>xs.unshift(xs.pop())\<close>. A table is never empty (a wiring
  has 26 letters); on an empty array the source would store \<^verbatim>\<open>undefined\<close>, which the
  element type here does not have.
\<close>

fun shift_push :: "'a list \<Rightarrow> 'a list" where
  "shift_push [] = []"
| "shift_push (x # xs) = xs @ [x]"

definition pop_unshift :: "'a list \<Rightarrow> 'a list" where
  "pop_unshift xs = (if xs = [] then [] else last xs # butlast xs)"

definition rotate_once :: "bool \<Rightarrow> rotor \<Rightarrow> rotor" where
  "rotate_once fwd r =
     (if fwd then r\<lparr>left := shift_push (left r), right := shift_push (right r)\<rparr>
      else r\<lparr>left := pop_unshift (left r), right := pop_unshift (right r)\<rparr>)"

fun rotate_loop :: "nat \<Rightarrow> bool \<Rightarrow> rotor \<Rightarrow> rotor" where
  "rotate_loop 0 fwd r = r"
| "rotate_loop (Suc k) fwd r = rotate_loop k fwd (rotate_once fwd r)"

text \<open>\<^verbatim>\<open>for (let i = 0; i < n; i++)\<close> runs \<open>n\<close> times, and not at all when \<open>n \<le> 0\<close>.\<close>

definition rotate_rotor :: "int \<Rightarrow> bool \<Rightarrow> rotor \<Rightarrow> rotor" where
  "rotate_rotor n fwd r = rotate_loop (nat n) fwd r"

definition rotateToLetter :: "string \<Rightarrow> rotor \<Rightarrow> rotor" where
  "rotateToLetter letter r = rotate_rotor (str_indexOf alphabet letter) True r"

definition setRing :: "int \<Rightarrow> rotor \<Rightarrow> rotor" where
  "setRing n r =
     (let r' = rotate_rotor (n - 1) False r;
          nNotch = str_indexOf alphabet (notch r')
      in r'\<lparr>notch := charAt alphabet (js_rem (nNotch - n + 1 + 26) 26)\<rparr>)"

text \<open>
  \<^verbatim>\<open>setRing(undefined)\<close>, when the ring string is shorter than three letters: the loop
  bound is NaN, so nothing rotates, and \<^verbatim>\<open>charAt(NaN)\<close> is \<^verbatim>\<open>charAt(0)\<close>.
\<close>

definition setRing_arg :: "int option \<Rightarrow> rotor \<Rightarrow> rotor" where
  "setRing_arg n r = (case n of None \<Rightarrow> r\<lparr>notch := charAt alphabet 0\<rparr> | Some k \<Rightarrow> setRing k r)"

section \<open>Reflector\<close>

record reflector =
  re_left :: "char list"
  re_right :: "char list"

definition new_Reflector :: "string \<Rightarrow> reflector" where
  "new_Reflector wiring = \<lparr>re_left = alphabet, re_right = wiring\<rparr>"

definition reflect :: "reflector \<Rightarrow> int \<Rightarrow> int" where
  "reflect f signal = indexOf_opt (re_left f) (at (re_right f) signal)"

section \<open>Engine\<close>

record enigma =
  re :: reflector
  r1 :: rotor
  r2 :: rotor
  r3 :: rotor
  pb :: plugboard

record encipher_result =
  path :: "int list"
  letter :: string

definition setRings :: "int list \<Rightarrow> enigma \<Rightarrow> enigma" where
  "setRings rings e =
     e\<lparr>r1 := setRing_arg (at rings 0) (r1 e),
       r2 := setRing_arg (at rings 1) (r2 e),
       r3 := setRing_arg (at rings 2) (r3 e)\<rparr>"

definition setKey :: "string \<Rightarrow> enigma \<Rightarrow> enigma" where
  "setKey key e =
     e\<lparr>r1 := rotateToLetter (map toUpperCase (charAt key 0)) (r1 e),
       r2 := rotateToLetter (map toUpperCase (charAt key 1)) (r2 e),
       r3 := rotateToLetter (map toUpperCase (charAt key 2)) (r3 e)\<rparr>"

definition encipher :: "enigma \<Rightarrow> string \<Rightarrow> enigma \<times> encipher_result" where
  "encipher e l =
     (let e1 = e\<lparr>r3 := rotate_rotor 1 True (r3 e)\<rparr>;
          s0 = kb_forward l;
          s1 = pb_forward (pb e1) s0;
          s2 = forward (r3 e1) s1;
          s3 = forward (r2 e1) s2;
          s4 = forward (r1 e1) s3;
          s5 = reflect (re e1) s4;
          s6 = backward (r1 e1) s5;
          s7 = backward (r2 e1) s6;
          s8 = backward (r3 e1) s7;
          s9 = pb_backward (pb e1) s8;
          outputLetter = kb_backward s9
      in (e1, \<lparr>path = [s0, s1, s2, s3, s4, s5, s6, s7, s8, s9], letter = outputLetter\<rparr>))"

section \<open>Text codec\<close>

record config =
  rotors :: string
  rotorStart :: string
  rings :: string
  plugboard :: string
  reflector :: string

definition rotorWirings :: "string \<rightharpoonup> string" where
  "rotorWirings = map_of
     [(''I'', ''EKMFLGDQVZNTOWYHXUSPAIBRCJ''),
      (''II'', ''AJDKSIRUXBLHWTMCQGZNPYFVOE''),
      (''III'', ''BDFHJLCPRTXVZNYEIWGAKMUSQO''),
      (''IV'', ''ESOVPZJAYQUIRHXLNFTGKDCMWB''),
      (''V'', ''VZBRGITYUPSDNHLXAWMJQOFECK'')]"

definition reflectorWirings :: "string \<rightharpoonup> string" where
  "reflectorWirings = map_of
     [(''A'', ''EJMZALYXVBWFCRQUONTSPIKHGD''),
      (''B'', ''YRUHQSLDPXNGOKMIEBFZCWVJAT''),
      (''C'', ''FVPJIAOYEDRZXWGCTKUQSBNMHL'')]"

datatype error = TypeError

text \<open>
  The engine of a configuration. A name that resolves to no wiring makes the constructor
  call \<^verbatim>\<open>split\<close> on \<^verbatim>\<open>undefined\<close>, which throws; a missing second or third rotor name
  (\<^verbatim>\<open>rotorNames[i]\<close> undefined) resolves to no wiring either.
\<close>

definition rotor_name :: "string list \<Rightarrow> nat \<Rightarrow> string option" where
  "rotor_name names i = (if i < length names then rotorWirings (names ! i) else None)"

definition build_enigma :: "config \<Rightarrow> error + enigma" where
  "build_enigma cfg =
     (let rotorNames = split_on CHR ''-'' (rotors cfg) in
      (case (rotor_name rotorNames 0, rotor_name rotorNames 1, rotor_name rotorNames 2,
             reflectorWirings (reflector cfg)) of
         (Some w1, Some w2, Some w3, Some wr) \<Rightarrow>
           (let e0 = \<lparr>re = new_Reflector wr,
                      r1 = new_Rotor w1 ''Q'',
                      r2 = new_Rotor w2 ''E'',
                      r3 = new_Rotor w3 ''V'',
                      pb = new_Plugboard (plugboard cfg)\<rparr>;
                e1 = setRings (map (\<lambda>c. indexOf alphabet c + 1) (rings cfg)) e0
            in Inr (setKey (rotorStart cfg) e1))
       | _ \<Rightarrow> Inl TypeError))"

text \<open>The body of the loop over the characters: the new engine and what is appended.\<close>

definition transform_char :: "enigma \<Rightarrow> char \<Rightarrow> enigma \<times> string" where
  "transform_char e c =
     (if is_letter c then
        (let (e', result) = encipher e [toUpperCase c];
             newChar = letter result;
             newChar = (if c = toLowerCase c then map toLowerCase newChar else newChar)
         in (e', newChar))
      else (e, [c]))"

fun transform_loop :: "enigma \<Rightarrow> string \<Rightarrow> enigma \<times> string" where
  "transform_loop e [] = (e, [])"
| "transform_loop e (c # cs) =
     (let (e', out) = transform_char e c;
          (e'', outs) = transform_loop e' cs
      in (e'', out @ outs))"

definition enigmaObfuscate :: "string \<Rightarrow> config \<Rightarrow> bool \<Rightarrow> error + string" where
  "enigmaObfuscate text cfg obfuscate =
     (case build_enigma cfg of
        Inl err \<Rightarrow> Inl err
      | Inr e \<Rightarrow> Inr (snd (transform_loop e text)))"

section \<open>Regular expressions\<close>

text \<open>
  The patterns of the obfuscation passes are sequences of literals, alternatives of
  literals, quantified character classes and the word boundary; groups only mark which
  pieces a replacement reads. A pattern is a list of items, and a match returns the
  piece of text each item consumed, so that a group is the concatenation of its pieces.
\<close>

datatype cls = Chars string | NotChars string | Space

datatype quant = One | Opt | Star | Plus | StarLazy

datatype item = Lit string | Alt "string list" | Rep cls quant | WordB

definition digits :: string where
  "digits = ''0123456789''"

text \<open>The class \<^verbatim>\<open>\w\<close>.\<close>

definition word_chars :: string where
  "word_chars = alphabet @ lower_alphabet @ digits @ ''_''"

text \<open>The class \<^verbatim>\<open>.\<close>: every character but a line terminator.\<close>

definition dot :: cls where
  "dot = NotChars [CHR 0x0A, CHR 0x0D]"

fun in_cls :: "cls \<Rightarrow> char \<Rightarrow> bool" where
  "in_cls (Chars s) c = (c \<in> set s)"
| "in_cls (NotChars s) c = (c \<notin> set s)"
| "in_cls Space c = is_space c"

text \<open>
  The numbers of repetitions a quantifier tries, in the order the backtracking matcher
  tries them, when the class holds for the next \<open>n\<close> characters and not for the one after.
\<close>

fun counts :: "quant \<Rightarrow> nat \<Rightarrow> nat list" where
  "counts One n = (if 1 \<le> n then [1] else [])"
| "counts Opt n = (if 1 \<le> n then [1, 0] else [0])"
| "counts Star n = rev [0..<Suc n]"
| "counts Plus n = rev [1..<Suc n]"
| "counts StarLazy n = [0..<Suc n]"

fun first_some :: "('a \<Rightarrow> 'b option) \<Rightarrow> 'a list \<Rightarrow> 'b option" where
  "first_some f [] = None"
| "first_some f (x # xs) = (case f x of Some y \<Rightarrow> Some y | None \<Rightarrow> first_some f xs)"

text \<open>The character before the current position, after some text has been consumed.\<close>

definition last_char :: "char option \<Rightarrow> string \<Rightarrow> char option" where
  "last_char prev consumed = (if consumed = [] then prev else Some (last consumed))"

text \<open>\<^verbatim>\<open>\b\<close>: exactly one of the two neighbours is a word character.\<close>

definition word_boundary :: "char option \<Rightarrow> string \<Rightarrow> bool" where
  "word_boundary prev s \<longleftrightarrow>
     (case prev of None \<Rightarrow> False | Some c \<Rightarrow> c \<in> set word_chars) \<noteq>
     (case s of [] \<Rightarrow> False | c # _ \<Rightarrow> c \<in> set word_chars)"

text \<open>
  A match of the pattern at the start of \<open>s\<close>, with \<open>prev\<close> the character before it:
  the pieces of the first match in the matcher's priority order, or \<open>None\<close>.
\<close>

fun match_items :: "item list \<Rightarrow> char option \<Rightarrow> string \<Rightarrow> string list option" where
  "match_items [] prev s = Some []"
| "match_items (Lit l # rest) prev s =
     (if prefix l s
      then map_option (Cons l) (match_items rest (last_char prev l) (drop (length l) s))
      else None)"
| "match_items (Alt alts # rest) prev s =
     first_some
       (\<lambda>a. if prefix a s
            then map_option (Cons a) (match_items rest (last_char prev a) (drop (length a) s))
            else None)
       alts"
| "match_items (Rep c q # rest) prev s =
     first_some
       (\<lambda>k. map_option (Cons (take k s))
              (match_items rest (last_char prev (take k s)) (drop k s)))
       (counts q (length (takeWhile (in_cls c) s)))"
| "match_items (WordB # rest) prev s =
     (if word_boundary prev s then map_option (Cons []) (match_items rest prev s) else None)"

text \<open>
  \<^verbatim>\<open>s.replace(regex, f)\<close> with the global flag: the text is scanned from the left; where
  the pattern matches, the replacement computed from the pieces is emitted and the scan
  goes on behind the match (\<open>skip\<close> counts the characters of a match still to be passed);
  elsewhere the character is copied. After an empty match the next character is copied.
\<close>

fun replace_from ::
  "item list \<Rightarrow> (string list \<Rightarrow> string) \<Rightarrow> char option \<Rightarrow> nat \<Rightarrow> string \<Rightarrow> string" where
  "replace_from rx f prev skip [] =
     (if skip = 0 then (case match_items rx prev [] of Some ps \<Rightarrow> f ps | None \<Rightarrow> []) else [])"
| "replace_from rx f prev skip (c # cs) =
     (if 0 < skip then replace_from rx f (Some c) (skip - 1) cs
      else (case match_items rx prev (c # cs) of
              None \<Rightarrow> c # replace_from rx f (Some c) 0 cs
            | Some ps \<Rightarrow>
                (let n = length (concat ps)
                 in if n = 0 then f ps @ c # replace_from rx f (Some c) 0 cs
                    else f ps @ replace_from rx f (Some c) (n - 1) cs)))"

definition replace_all :: "item list \<Rightarrow> (string list \<Rightarrow> string) \<Rightarrow> string \<Rightarrow> string" where
  "replace_all rx f s = replace_from rx f None 0 s"

section \<open>Obfuscation passes\<close>

text \<open>
  The number renderings \<^verbatim>\<open>${-parseInt(b)}\<close>, \<^verbatim>\<open>${Math.log2(parseInt(b))}\<close> and
  \<^verbatim>\<open>${parseInt(b) % 2}\<close> of a digit string are the host's floating-point arithmetic and
  number formatting; they are parameters of the pass.
\<close>

record numfmt =
  neg_str :: "string \<Rightarrow> string"
  log2_str :: "string \<Rightarrow> string"
  mod2_str :: "string \<Rightarrow> string"

text \<open>\<^verbatim>\<open>/([w.]+)\s*OP\s*(\d+)/g\<close>; group 1 is piece 0 and group 2 is piece 4.\<close>

definition arith_regex :: "string \<Rightarrow> item list" where
  "arith_regex operator =
     [Rep (Chars ''w.'') Plus, Rep Space Star, Lit operator, Rep Space Star, Rep (Chars digits) Plus]"

definition encodeArithmetic :: "numfmt \<Rightarrow> string \<Rightarrow> string" where
  "encodeArithmetic nf code =
     (let transformed = code;
          transformed = replace_all (arith_regex ''+'')
            (\<lambda>ps. ''('' @ ps ! 0 @ '' - ('' @ neg_str nf (ps ! 4) @ ''))'') transformed;
          transformed = replace_all (arith_regex ''*'')
            (\<lambda>ps. ''(('' @ ps ! 0 @ '' << '' @ log2_str nf (ps ! 4) @ '') + '' @ ps ! 0 @ '' * '' @
                   mod2_str nf (ps ! 4) @ '')'') transformed;
          transformed = replace_all (arith_regex ''-'')
            (\<lambda>ps. ''('' @ ps ! 0 @ '' + ('' @ neg_str nf (ps ! 4) @ ''))'') transformed
      in transformed)"



text \<open>The five patterns of the removal pass, in the order they are applied.\<close>

definition junk_function_regex :: "item list" where
  "junk_function_regex =
     [WordB, Lit ''function'', Rep Space Plus, Lit ''_dummy'', Rep (Chars digits) Plus,
      Rep (NotChars ''}'') Plus, Lit ''}'']"

definition timing_regex :: "item list" where
  "timing_regex = [Lit ''const _t = performance.now();'', Rep (Chars [CHR 0x0A]) Opt]"

definition even_regex :: "item list" where
  "even_regex =
     [Lit ''if(_t % 2 === 0)'', Rep (NotChars ''}'') Plus, Lit ''}'', Rep (Chars [CHR 0x0A]) Opt]"

definition try_regex :: "item list" where
  "try_regex =
     [Lit ''try'', Rep Space Star, Lit ''{'', Rep Space Star, Lit ''_dummy'', Rep (Chars digits) Plus,
      Lit ''();'', Rep Space Star, Lit ''}'', Rep Space Star, Lit ''catch(e)'', Rep Space Star,
      Lit ''{'', Rep (NotChars ''}'') Plus, Lit ''}'', Rep (Chars [CHR 0x0A]) Opt]"

text \<open>\<^verbatim>\<open>/\((.*?)\s*\*\s*1\s*\+\s*0\)/g\<close>, replaced by its group 1, piece 1.\<close>

definition hidden_regex :: "item list" where
  "hidden_regex =
     [Lit ''('', Rep dot StarLazy, Rep Space Star, Lit ''*'', Rep Space Star, Lit ''1'',
      Rep Space Star, Lit ''+'', Rep Space Star, Lit ''0'', Lit '')'']"

definition removeObfuscation :: "string \<Rightarrow> string" where
  "removeObfuscation code =
     (let code = replace_all junk_function_regex (\<lambda>ps. []) code;
          code = replace_all timing_regex (\<lambda>ps. []) code;
          code = replace_all even_regex (\<lambda>ps. []) code;
          code = replace_all try_regex (\<lambda>ps. []) code;
          code = replace_all hidden_regex (\<lambda>ps. ps ! 1) code
      in code)"

section \<open>Invariants and auxiliary notions\<close>

definition table_ok :: "char list \<Rightarrow> bool" where
  "table_ok xs \<longleftrightarrow> distinct xs \<and> set xs = set alphabet"

definition rotor_ok :: "rotor \<Rightarrow> bool" where
  "rotor_ok r \<longleftrightarrow> table_ok (left r) \<and> table_ok (right r)"

definition refl_ok :: "reflector \<Rightarrow> bool" where
  "refl_ok f \<longleftrightarrow>
     (\<forall>s. 0 \<le> s \<and> s < 26 \<longrightarrow>
        0 \<le> reflect f s \<and> reflect f s < 26 \<and> reflect f (reflect f s) = s \<and> reflect f s \<noteq> s)"

definition refl_check :: "reflector \<Rightarrow> bool" where
  "refl_check f \<longleftrightarrow>
     list_all (\<lambda>s. 0 \<le> reflect f s \<and> reflect f s < 26 \<and> reflect f (reflect f s) = s \<and> reflect f s \<noteq> s) [0..25]"

definition enigma_ok :: "enigma \<Rightarrow> bool" where
  "enigma_ok e \<longleftrightarrow>
     refl_ok (re e) \<and> rotor_ok (r1 e) \<and> rotor_ok (r2 e) \<and> rotor_ok (r3 e) \<and>
     table_ok (pb_left (pb e)) \<and> table_ok (pb_right (pb e))"

text \<open>The signal's way through the engine, on positions.\<close>

definition signal_out :: "enigma \<Rightarrow> int \<Rightarrow> int" where
  "signal_out e s =
     pb_backward (pb e) (backward (r3 e) (backward (r2 e) (backward (r1 e)
       (reflect (re e) (forward (r1 e) (forward (r2 e) (forward (r3 e) (pb_forward (pb e) s))))))))"

definition in_range :: "int \<Rightarrow> bool" where
  "in_range s \<longleftrightarrow> 0 \<le> s \<and> s < 26"

definition step :: "enigma \<Rightarrow> enigma" where
  "step e = e\<lparr>r3 := rotate_rotor 1 True (r3 e)\<rparr>"

definition config_resolves :: "config \<Rightarrow> bool" where
  "config_resolves cfg \<longleftrightarrow>
     (let names = split_on CHR ''-'' (rotors cfg)
      in rotor_name names 0 \<noteq> None \<and> rotor_name names 1 \<noteq> None \<and> rotor_name names 2 \<noteq> None \<and>
         reflectorWirings (reflector cfg) \<noteq> None)"

text \<open>
  The policy in the specification's words, for comparison with the constructor: a pair is
  kept when neither of its letters occurred in a pair kept before it, and skipped
  otherwise.
\<close>

fun first_applied_wins :: "char list \<Rightarrow> string list \<Rightarrow> string list" where
  "first_applied_wins used [] = []"
| "first_applied_wins used (pair # pairs) =
     (if length pair \<ge> 2 then
        (let A = toUpperCase (pair ! 0); B = toUpperCase (pair ! 1)
         in if A \<in> set used \<or> B \<in> set used then first_applied_wins used pairs
            else pair # first_applied_wins (A # B # used) pairs)
      else first_applied_wins used pairs)"

definition first_applied_wins_table :: "string \<Rightarrow> char list" where
  "first_applied_wins_table pairsStr =
     foldl plug_pair alphabet (first_applied_wins [] (split_on CHR '' '' (trim pairsStr)))"

text \<open>The exchange of a pair's two letters, the identity when the pair names no two letters.\<close>

definition pair_exchange :: "string \<Rightarrow> char \<Rightarrow> char" where
  "pair_exchange pair c =
     (if length pair \<ge> 2 \<and> toUpperCase (pair ! 0) \<in> set alphabet \<and> toUpperCase (pair ! 1) \<in> set alphabet
      then (if c = toUpperCase (pair ! 0) then toUpperCase (pair ! 1)
            else if c = toUpperCase (pair ! 1) then toUpperCase (pair ! 0) else c)
      else c)"

text \<open>
  Whether the pattern matches at some position a scan of the text reaches, with the
  character before the text given.
\<close>

fun matches_somewhere :: "item list \<Rightarrow> char option \<Rightarrow> string \<Rightarrow> bool" where
  "matches_somewhere rx prev [] = (match_items rx prev [] \<noteq> None)"
| "matches_somewhere rx prev (c # cs) =
     (match_items rx prev (c # cs) \<noteq> None \<or> matches_somewhere rx (Some c) cs)"





















section \<open>Tables, rotors and the signal path\<close>

lemma alphabet_ok: "table_ok alphabet"
  by (simp add: table_ok_def alphabet_def)

lemma table_ok_length: "table_ok xs \<Longrightarrow> length xs = 26"
proof -
  assume a: "table_ok xs"
  from a have d: "distinct xs" and s: "set xs = set alphabet" by (simp_all add: table_ok_def)
  have "distinct alphabet" by (simp add: alphabet_def)
  then have "card (set alphabet) = length alphabet" by (rule distinct_card)
  moreover have "card (set xs) = length xs" using d by (rule distinct_card)
  ultimately have "length xs = length alphabet" using s by simp
  then show ?thesis by (simp add: alphabet_def)
qed

lemma indexOf_absent: "x \<notin> set xs \<Longrightarrow> indexOf xs x = - 1"
  by (induction xs) auto

lemma indexOf_present:
  "x \<in> set xs \<Longrightarrow> 0 \<le> indexOf xs x \<and> indexOf xs x < int (length xs) \<and> xs ! nat (indexOf xs x) = x"
proof (induction xs)
  case Nil
  then show ?case by simp
next
  case (Cons y ys)
  show ?case
  proof (cases "y = x")
    case True
    then show ?thesis by simp
  next
    case False
    with Cons.prems have "x \<in> set ys" by simp
    from Cons.IH [OF this] False show ?thesis
      by (simp add: Let_def nat_add_distrib)
  qed
qed

lemma indexOf_nth:
  "distinct xs \<Longrightarrow> i < length xs \<Longrightarrow> indexOf xs (xs ! i) = int i"
proof (induction xs arbitrary: i)
  case Nil
  then show ?case by simp
next
  case (Cons y ys)
  show ?case
  proof (cases i)
    case 0
    then show ?thesis by simp
  next
    case (Suc j)
    with Cons.prems have j: "j < length ys" and d: "distinct ys" and ny: "y \<notin> set ys"
      by auto
    from j ny have "ys ! j \<noteq> y" by (metis nth_mem)
    with Cons.IH [OF d j] Suc show ?thesis by (simp add: Let_def)
  qed
qed

lemma str_indexOf_single: "str_indexOf xs [c] = indexOf xs c"
  by (induction xs) (auto simp: Let_def)

text \<open>A lookup through two tables, as every forward and backward map does it.\<close>

lemma lookup_range:
  assumes "table_ok L" "table_ok R" "0 \<le> s" "s < 26"
  shows "0 \<le> indexOf_opt L (at R s) \<and> indexOf_opt L (at R s) < 26"
proof -
  have lr: "length R = 26" and ll: "length L = 26"
    using assms by (simp_all add: table_ok_length)
  have "R ! nat s \<in> set R" using assms lr by simp
  then have "R ! nat s \<in> set L" using assms by (simp add: table_ok_def)
  from indexOf_present [OF this] show ?thesis
    using assms lr ll by (simp add: at_def indexOf_opt_def)
qed

lemma lookup_inverse:
  assumes "table_ok L" "table_ok R" "0 \<le> s" "s < 26"
  shows "indexOf_opt R (at L (indexOf_opt L (at R s))) = s"
proof -
  have lr: "length R = 26" and ll: "length L = 26"
    using assms by (simp_all add: table_ok_length)
  have "R ! nat s \<in> set R" using assms lr by simp
  then have m: "R ! nat s \<in> set L" using assms by (simp add: table_ok_def)
  have at1: "at R s = Some (R ! nat s)" using assms lr by (simp add: at_def)
  let ?j = "indexOf L (R ! nat s)"
  from indexOf_present [OF m] have j: "0 \<le> ?j" "?j < 26" "L ! nat ?j = R ! nat s"
    using ll by simp_all
  have at2: "at L ?j = Some (R ! nat s)" using j ll by (simp add: at_def)
  have "indexOf R (R ! nat s) = int (nat s)"
    using assms lr by (intro indexOf_nth) (simp_all add: table_ok_def)
  then show ?thesis using at1 at2 assms by (simp add: indexOf_opt_def)
qed

lemma shift_push_ok:
  assumes "table_ok xs"
  shows "table_ok (shift_push xs)"
proof (cases xs)
  case Nil
  with assms show ?thesis by simp
next
  case (Cons y ys)
  with assms have "distinct (ys @ [y])" "set (ys @ [y]) = set alphabet"
    unfolding table_ok_def by auto
  with Cons show ?thesis unfolding table_ok_def by simp
qed

lemma pop_unshift_ok: "table_ok xs \<Longrightarrow> table_ok (pop_unshift xs)"
proof -
  assume a: "table_ok xs"
  then have "length xs = 26" by (rule table_ok_length)
  then have ne: "xs \<noteq> []" by auto
  then have eq: "butlast xs @ [last xs] = xs" by simp
  from a have "distinct (butlast xs @ [last xs])" "set (butlast xs @ [last xs]) = set xs"
    unfolding table_ok_def eq by simp_all
  then have "distinct (last xs # butlast xs)" "set (last xs # butlast xs) = set xs"
    by auto
  with a ne show ?thesis unfolding pop_unshift_def table_ok_def by simp
qed

lemma rotate_once_ok: "rotor_ok r \<Longrightarrow> rotor_ok (rotate_once fwd r)"
  by (simp add: rotor_ok_def rotate_once_def shift_push_ok pop_unshift_ok)

lemma rotate_loop_ok: "rotor_ok r \<Longrightarrow> rotor_ok (rotate_loop k fwd r)"
  by (induction k arbitrary: r) (simp_all add: rotate_once_ok)

lemma rotate_rotor_ok: "rotor_ok r \<Longrightarrow> rotor_ok (rotate_rotor n fwd r)"
  by (simp add: rotate_rotor_def rotate_loop_ok)

lemma rotateToLetter_ok: "rotor_ok r \<Longrightarrow> rotor_ok (rotateToLetter l r)"
  by (simp add: rotateToLetter_def rotate_rotor_ok)

lemma setRing_ok: "rotor_ok r \<Longrightarrow> rotor_ok (setRing n r)"
proof -
  assume "rotor_ok r"
  then have "rotor_ok (rotate_rotor (n - 1) False r)" by (rule rotate_rotor_ok)
  then show ?thesis by (simp add: setRing_def Let_def rotor_ok_def)
qed

lemma setRing_arg_ok: "rotor_ok r \<Longrightarrow> rotor_ok (setRing_arg n r)"
  by (cases n) (simp_all add: setRing_arg_def setRing_ok, simp add: rotor_ok_def)

lemma plug_pair_ok: "table_ok l \<Longrightarrow> table_ok (plug_pair l pair)"
proof -
  assume a: "table_ok l"
  { fix A B assume ab: "indexOf l A \<noteq> - 1" "indexOf l B \<noteq> - 1"
    then have "A \<in> set l" "B \<in> set l" using indexOf_absent by metis+
    then have "nat (indexOf l A) < length l" "nat (indexOf l B) < length l"
      using indexOf_present by fastforce+
    then have "table_ok (l[nat (indexOf l A) := l ! nat (indexOf l B), nat (indexOf l B) := l ! nat (indexOf l A)])"
      using a by (simp add: table_ok_def distinct_swap) }
  then show ?thesis using a by (simp add: plug_pair_def Let_def)
qed

lemma foldl_plug_pair_ok: "table_ok l \<Longrightarrow> table_ok (foldl plug_pair l ps)"
  by (induction ps arbitrary: l) (simp_all add: plug_pair_ok)

lemma new_Plugboard_ok:
  "table_ok (pb_left (new_Plugboard s))" "table_ok (pb_right (new_Plugboard s))"
  by (simp_all add: new_Plugboard_def foldl_plug_pair_ok alphabet_ok)

lemma rotorWirings_ok: "rotorWirings n = Some w \<Longrightarrow> table_ok w"
proof -
  have 1: "table_ok ''EKMFLGDQVZNTOWYHXUSPAIBRCJ''" by code_simp
  have 2: "table_ok ''AJDKSIRUXBLHWTMCQGZNPYFVOE''" by code_simp
  have 3: "table_ok ''BDFHJLCPRTXVZNYEIWGAKMUSQO''" by code_simp
  have 4: "table_ok ''ESOVPZJAYQUIRHXLNFTGKDCMWB''" by code_simp
  have 5: "table_ok ''VZBRGITYUPSDNHLXAWMJQOFECK''" by code_simp
  assume "rotorWirings n = Some w"
  then have "w \<in> {''EKMFLGDQVZNTOWYHXUSPAIBRCJ'', ''AJDKSIRUXBLHWTMCQGZNPYFVOE'',
      ''BDFHJLCPRTXVZNYEIWGAKMUSQO'', ''ESOVPZJAYQUIRHXLNFTGKDCMWB'', ''VZBRGITYUPSDNHLXAWMJQOFECK''}"
    by (simp add: rotorWirings_def split: if_splits)
  with 1 2 3 4 5 show ?thesis by blast
qed

lemma refl_check_ok: "refl_check f \<Longrightarrow> refl_ok f"
  unfolding refl_check_def refl_ok_def list_all_iff by auto

lemma reflectorWirings_ok: "reflectorWirings n = Some w \<Longrightarrow> refl_ok (new_Reflector w)"
proof -
  have 1: "refl_check (new_Reflector ''EJMZALYXVBWFCRQUONTSPIKHGD'')" by code_simp
  have 2: "refl_check (new_Reflector ''YRUHQSLDPXNGOKMIEBFZCWVJAT'')" by code_simp
  have 3: "refl_check (new_Reflector ''FVPJIAOYEDRZXWGCTKUQSBNMHL'')" by code_simp
  assume "reflectorWirings n = Some w"
  then have "w \<in> {''EJMZALYXVBWFCRQUONTSPIKHGD'', ''YRUHQSLDPXNGOKMIEBFZCWVJAT'',
      ''FVPJIAOYEDRZXWGCTKUQSBNMHL''}"
    by (simp add: reflectorWirings_def split: if_splits)
  with 1 2 3 show ?thesis using refl_check_ok by blast
qed

lemma upper_cases:
  assumes "c \<in> set alphabet"
  shows "toUpperCase c = c" "toLowerCase c \<noteq> c" "toLowerCase c \<in> set lower_alphabet"
    "toUpperCase (toLowerCase c) = c" "is_letter c" "c \<notin> set lower_alphabet"
proof -
  have "list_all (\<lambda>c. toUpperCase c = c \<and> toLowerCase c \<noteq> c \<and> toLowerCase c \<in> set lower_alphabet
      \<and> toUpperCase (toLowerCase c) = c \<and> is_letter c \<and> c \<notin> set lower_alphabet) alphabet"
    by code_simp
  with assms show "toUpperCase c = c" "toLowerCase c \<noteq> c" "toLowerCase c \<in> set lower_alphabet"
    "toUpperCase (toLowerCase c) = c" "is_letter c" "c \<notin> set lower_alphabet"
    unfolding list_all_iff by blast+
qed

lemma lower_cases:
  assumes "c \<in> set lower_alphabet"
  shows "toLowerCase c = c" "toUpperCase c \<in> set alphabet"
    "toLowerCase (toUpperCase c) = c" "is_letter c" "c \<notin> set alphabet"
proof -
  have "list_all (\<lambda>c. toLowerCase c = c \<and> toUpperCase c \<in> set alphabet
      \<and> toLowerCase (toUpperCase c) = c \<and> is_letter c \<and> c \<notin> set alphabet) lower_alphabet"
    by code_simp
  with assms show "toLowerCase c = c" "toUpperCase c \<in> set alphabet"
    "toLowerCase (toUpperCase c) = c" "is_letter c" "c \<notin> set alphabet"
    unfolding list_all_iff by blast+
qed

lemma new_Rotor_ok: "table_ok w \<Longrightarrow> rotor_ok (new_Rotor w n)"
  by (simp add: new_Rotor_def rotor_ok_def alphabet_ok)

lemma setRings_ok: "enigma_ok e \<Longrightarrow> enigma_ok (setRings rs e)"
  by (simp add: enigma_ok_def setRings_def setRing_arg_ok)

lemma setKey_ok: "enigma_ok e \<Longrightarrow> enigma_ok (setKey k e)"
  by (simp add: enigma_ok_def setKey_def rotateToLetter_ok)

lemma rotor_name_ok: "rotor_name ns i = Some w \<Longrightarrow> table_ok w"
  by (auto simp: rotor_name_def rotorWirings_ok split: if_splits)

lemma build_enigma_ok:
  assumes "build_enigma cfg = Inr e"
  shows "enigma_ok e"
proof -
  let ?ns = "split_on CHR ''-'' (rotors cfg)"
  from assms obtain w1 w2 w3 wr where
    w: "rotor_name ?ns 0 = Some w1" "rotor_name ?ns 1 = Some w2" "rotor_name ?ns 2 = Some w3"
       "reflectorWirings (reflector cfg) = Some wr"
    and e: "e = setKey (rotorStart cfg)
             (setRings (map (\<lambda>c. indexOf alphabet c + 1) (rings cfg))
               \<lparr>re = new_Reflector wr, r1 = new_Rotor w1 ''Q'', r2 = new_Rotor w2 ''E'',
                r3 = new_Rotor w3 ''V'', pb = new_Plugboard (plugboard cfg)\<rparr>)"
    by (auto simp: build_enigma_def Let_def split: option.splits)
  have "enigma_ok \<lparr>re = new_Reflector wr, r1 = new_Rotor w1 ''Q'', r2 = new_Rotor w2 ''E'',
                r3 = new_Rotor w3 ''V'', pb = new_Plugboard (plugboard cfg)\<rparr>"
    using w by (simp add: enigma_ok_def new_Rotor_ok rotor_name_ok reflectorWirings_ok new_Plugboard_ok)
  then show ?thesis unfolding e by (intro setKey_ok setRings_ok)
qed

lemma forward_range: "rotor_ok r \<Longrightarrow> in_range s \<Longrightarrow> in_range (forward r s)"
  using lookup_range [of "left r" "right r" s] by (simp add: rotor_ok_def forward_def in_range_def)

lemma backward_range: "rotor_ok r \<Longrightarrow> in_range s \<Longrightarrow> in_range (backward r s)"
  using lookup_range [of "right r" "left r" s] by (simp add: rotor_ok_def backward_def in_range_def)

lemma backward_forward: "rotor_ok r \<Longrightarrow> in_range s \<Longrightarrow> backward r (forward r s) = s"
  using lookup_inverse [of "left r" "right r" s] by (simp add: rotor_ok_def forward_def backward_def in_range_def)

lemma forward_backward: "rotor_ok r \<Longrightarrow> in_range s \<Longrightarrow> forward r (backward r s) = s"
  using lookup_inverse [of "right r" "left r" s] by (simp add: rotor_ok_def forward_def backward_def in_range_def)

lemma pb_forward_range:
  "table_ok (pb_left p) \<Longrightarrow> table_ok (pb_right p) \<Longrightarrow> in_range s \<Longrightarrow> in_range (pb_forward p s)"
  using lookup_range [of "pb_left p" "pb_right p" s] by (simp add: pb_forward_def in_range_def)

lemma pb_backward_range:
  "table_ok (pb_left p) \<Longrightarrow> table_ok (pb_right p) \<Longrightarrow> in_range s \<Longrightarrow> in_range (pb_backward p s)"
  using lookup_range [of "pb_right p" "pb_left p" s] by (simp add: pb_backward_def in_range_def)

lemma pb_backward_forward:
  "table_ok (pb_left p) \<Longrightarrow> table_ok (pb_right p) \<Longrightarrow> in_range s \<Longrightarrow> pb_backward p (pb_forward p s) = s"
  using lookup_inverse [of "pb_left p" "pb_right p" s]
  by (simp add: pb_forward_def pb_backward_def in_range_def)

lemma pb_forward_backward:
  "table_ok (pb_left p) \<Longrightarrow> table_ok (pb_right p) \<Longrightarrow> in_range s \<Longrightarrow> pb_forward p (pb_backward p s) = s"
  using lookup_inverse [of "pb_right p" "pb_left p" s]
  by (simp add: pb_forward_def pb_backward_def in_range_def)

lemma reflect_props:
  assumes "refl_ok f" "in_range s"
  shows "in_range (reflect f s)" "reflect f (reflect f s) = s" "reflect f s \<noteq> s"
  using assms unfolding refl_ok_def in_range_def by blast+

lemma signal_out_range:
  assumes "enigma_ok e" "in_range s"
  shows "in_range (signal_out e s)"
  using assms unfolding signal_out_def enigma_ok_def
  by (intro pb_backward_range backward_range reflect_props(1) forward_range pb_forward_range) simp_all

lemma signal_out_involution:
  assumes ok: "enigma_ok e" and s: "in_range s"
  shows "signal_out e (signal_out e s) = s"
proof -
  from ok have f: "refl_ok (re e)" and a: "rotor_ok (r1 e)" and b: "rotor_ok (r2 e)"
    and c: "rotor_ok (r3 e)" and pl: "table_ok (pb_left (pb e))" and pr: "table_ok (pb_right (pb e))"
    by (simp_all add: enigma_ok_def)
  let ?s1 = "pb_forward (pb e) s"
  let ?s2 = "forward (r3 e) ?s1"
  let ?s3 = "forward (r2 e) ?s2"
  let ?s4 = "forward (r1 e) ?s3"
  let ?s5 = "reflect (re e) ?s4"
  let ?s6 = "backward (r1 e) ?s5"
  let ?s7 = "backward (r2 e) ?s6"
  let ?s8 = "backward (r3 e) ?s7"
  have i1: "in_range ?s1" using pl pr s by (rule pb_forward_range)
  have i2: "in_range ?s2" using c i1 by (rule forward_range)
  have i3: "in_range ?s3" using b i2 by (rule forward_range)
  have i4: "in_range ?s4" using a i3 by (rule forward_range)
  have i5: "in_range ?s5" using f i4 by (rule reflect_props)
  have i6: "in_range ?s6" using a i5 by (rule backward_range)
  have i7: "in_range ?s7" using b i6 by (rule backward_range)
  have i8: "in_range ?s8" using c i7 by (rule backward_range)
  have "signal_out e (signal_out e s) =
     pb_backward (pb e) (backward (r3 e) (backward (r2 e) (backward (r1 e)
       (reflect (re e) (forward (r1 e) (forward (r2 e) (forward (r3 e)
          (pb_forward (pb e) (pb_backward (pb e) ?s8)))))))))"
    by (simp add: signal_out_def)
  also have "pb_forward (pb e) (pb_backward (pb e) ?s8) = ?s8"
    using pl pr i8 by (rule pb_forward_backward)
  also have "forward (r3 e) ?s8 = ?s7" using c i7 by (rule forward_backward)
  also have "forward (r2 e) ?s7 = ?s6" using b i6 by (rule forward_backward)
  also have "forward (r1 e) ?s6 = ?s5" using a i5 by (rule forward_backward)
  also have "reflect (re e) ?s5 = ?s4" using f i4 by (rule reflect_props)
  also have "backward (r1 e) ?s4 = ?s3" using a i3 by (rule backward_forward)
  also have "backward (r2 e) ?s3 = ?s2" using b i2 by (rule backward_forward)
  also have "backward (r3 e) ?s2 = ?s1" using c i1 by (rule backward_forward)
  also have "pb_backward (pb e) ?s1 = s" using pl pr s by (rule pb_backward_forward)
  finally show ?thesis .
qed

lemma signal_out_no_fixpoint:
  assumes ok: "enigma_ok e" and s: "in_range s"
  shows "signal_out e s \<noteq> s"
proof
  assume eq: "signal_out e s = s"
  from ok have f: "refl_ok (re e)" and a: "rotor_ok (r1 e)" and b: "rotor_ok (r2 e)"
    and c: "rotor_ok (r3 e)" and pl: "table_ok (pb_left (pb e))" and pr: "table_ok (pb_right (pb e))"
    by (simp_all add: enigma_ok_def)
  let ?s1 = "pb_forward (pb e) s"
  let ?s2 = "forward (r3 e) ?s1"
  let ?s3 = "forward (r2 e) ?s2"
  let ?s4 = "forward (r1 e) ?s3"
  let ?s5 = "reflect (re e) ?s4"
  let ?s6 = "backward (r1 e) ?s5"
  let ?s7 = "backward (r2 e) ?s6"
  let ?s8 = "backward (r3 e) ?s7"
  have i1: "in_range ?s1" using pl pr s by (rule pb_forward_range)
  have i2: "in_range ?s2" using c i1 by (rule forward_range)
  have i3: "in_range ?s3" using b i2 by (rule forward_range)
  have i4: "in_range ?s4" using a i3 by (rule forward_range)
  have i5: "in_range ?s5" using f i4 by (rule reflect_props)
  have i6: "in_range ?s6" using a i5 by (rule backward_range)
  have i7: "in_range ?s7" using b i6 by (rule backward_range)
  have i8: "in_range ?s8" using c i7 by (rule backward_range)
  from eq have "pb_backward (pb e) ?s8 = s" by (simp add: signal_out_def)
  then have "pb_forward (pb e) (pb_backward (pb e) ?s8) = ?s1" by simp
  then have "?s8 = ?s1" using pb_forward_backward [OF pl pr i8] by simp
  then have "forward (r3 e) ?s8 = ?s2" by simp
  then have "?s7 = ?s2" using forward_backward [OF c i7] by simp
  then have "forward (r2 e) ?s7 = ?s3" by simp
  then have "?s6 = ?s3" using forward_backward [OF b i6] by simp
  then have "forward (r1 e) ?s6 = ?s4" by simp
  then have "?s5 = ?s4" using forward_backward [OF a i5] by simp
  with reflect_props(3) [OF f i4] show False by simp
qed

lemma step_ok: "enigma_ok e \<Longrightarrow> enigma_ok (step e)"
  by (simp add: enigma_ok_def step_def rotate_rotor_ok)

lemma encipher_step: "fst (encipher e l) = step e"
  by (simp add: encipher_def step_def Let_def)

lemma encipher_letter: "letter (snd (encipher e l)) = kb_backward (signal_out (step e) (kb_forward l))"
  by (simp add: encipher_def step_def Let_def signal_out_def)

lemma kb_forward_upper:
  assumes "c \<in> set alphabet"
  shows "in_range (kb_forward [c])" "kb_backward (kb_forward [c]) = [c]"
proof -
  have l: "length alphabet = 26" by (simp add: alphabet_def)
  from indexOf_present [OF assms] l
  show "in_range (kb_forward [c])" "kb_backward (kb_forward [c]) = [c]"
    by (simp_all add: kb_forward_def kb_backward_def str_indexOf_single in_range_def charAt_def)
qed

lemma kb_backward_range:
  assumes "in_range s"
  shows "\<exists>c \<in> set alphabet. kb_backward s = [c] \<and> kb_forward [c] = s"
proof -
  have l: "length alphabet = 26" and d: "distinct alphabet" by (simp_all add: alphabet_def)
  from assms l have n: "nat s < length alphabet" by (auto simp: in_range_def)
  then have m: "alphabet ! nat s \<in> set alphabet" by (rule nth_mem)
  have "indexOf alphabet (alphabet ! nat s) = int (nat s)" using d n by (rule indexOf_nth)
  with assms l m show ?thesis
    by (intro bexI [of _ "alphabet ! nat s"])
       (simp_all add: kb_backward_def charAt_def kb_forward_def str_indexOf_single in_range_def)
qed

text \<open>Enciphering an uppercase letter, and then its image from the same state.\<close>

lemma encipher_upper:
  assumes ok: "enigma_ok e" and u: "u \<in> set alphabet"
  shows "\<exists>v \<in> set alphabet. letter (snd (encipher e [u])) = [v] \<and> v \<noteq> u \<and>
           letter (snd (encipher e [v])) = [u]"
proof -
  have ok': "enigma_ok (step e)" using ok by (rule step_ok)
  let ?s = "kb_forward [u]"
  have s: "in_range ?s" using u by (rule kb_forward_upper)
  let ?t = "signal_out (step e) ?s"
  have t: "in_range ?t" using ok' s by (rule signal_out_range)
  from kb_backward_range [OF t] obtain v where
    v: "v \<in> set alphabet" "kb_backward ?t = [v]" "kb_forward [v] = ?t" by blast
  have ne: "?t \<noteq> ?s" using ok' s by (rule signal_out_no_fixpoint)
  have "v \<noteq> u" using ne v(3) by auto
  moreover have "letter (snd (encipher e [u])) = [v]" using v(2) by (simp add: encipher_letter)
  moreover have "letter (snd (encipher e [v])) = [u]"
    using signal_out_involution [OF ok' s] kb_forward_upper(2) [OF u] v(3)
    by (simp add: encipher_letter)
  ultimately show ?thesis using v(1) by blast
qed

lemma transform_char_other: "\<not> is_letter c \<Longrightarrow> transform_char e c = (e, [c])"
  by (simp add: transform_char_def)

lemma transform_char_letter:
  assumes ok: "enigma_ok e" and c: "is_letter c"
  shows "\<exists>d. transform_char e c = (step e, [d]) \<and> is_letter d \<and> transform_char e d = (step e, [c])"
proof (cases "c \<in> set alphabet")
  case True
  note up = upper_cases [OF True]
  from encipher_upper [OF ok True] obtain v where
    v: "v \<in> set alphabet" "letter (snd (encipher e [c])) = [v]"
       "letter (snd (encipher e [v])) = [c]" by blast
  note vp = upper_cases [OF v(1)]
  have 1: "transform_char e c = (step e, [v])"
    using c up v(2) encipher_step [of e "[c]"]
    by (simp add: transform_char_def Let_def case_prod_unfold)
  have 2: "transform_char e v = (step e, [c])"
    using vp v(3) encipher_step [of e "[v]"]
    by (simp add: transform_char_def Let_def case_prod_unfold)
  from 1 2 vp(5) show ?thesis by blast
next
  case False
  with c have lo: "c \<in> set lower_alphabet" by (simp add: is_letter_def)
  note lp = lower_cases [OF lo]
  let ?u = "toUpperCase c"
  from encipher_upper [OF ok lp(2)] obtain v where
    v: "v \<in> set alphabet" "letter (snd (encipher e [?u])) = [v]"
       "letter (snd (encipher e [v])) = [?u]" by blast
  note vp = upper_cases [OF v(1)]
  let ?d = "toLowerCase v"
  note dp = lower_cases [OF vp(3)]
  have 1: "transform_char e c = (step e, [?d])"
    using c lp v(2) encipher_step [of e "[?u]"]
    by (simp add: transform_char_def Let_def case_prod_unfold)
  have 2: "transform_char e ?d = (step e, [c])"
    using dp vp v(3) lp encipher_step [of e "[v]"]
    by (simp add: transform_char_def Let_def case_prod_unfold)
  from 1 2 dp(4) show ?thesis by blast
qed

lemma transform_loop_involution:
  "enigma_ok e \<Longrightarrow> transform_loop e (snd (transform_loop e s)) = (fst (transform_loop e s), s)"
proof (induction s arbitrary: e)
  case Nil
  then show ?case by simp
next
  case (Cons c cs)
  show ?case
  proof (cases "is_letter c")
    case True
    from transform_char_letter [OF Cons.prems True] obtain d where
      d: "transform_char e c = (step e, [d])" "transform_char e d = (step e, [c])" by blast
    have ih: "transform_loop (step e) (snd (transform_loop (step e) cs))
        = (fst (transform_loop (step e) cs), cs)"
      using Cons.prems by (intro Cons.IH step_ok)
    show ?thesis using d ih by (simp add: case_prod_unfold Let_def)
  next
    case False
    have ih: "transform_loop e (snd (transform_loop e cs)) = (fst (transform_loop e cs), cs)"
      using Cons.prems by (rule Cons.IH)
    show ?thesis using False ih by (simp add: transform_char_other case_prod_unfold Let_def)
  qed
qed

lemma build_enigma_resolves: "config_resolves cfg \<Longrightarrow> \<exists>e. build_enigma cfg = Inr e"
  by (auto simp: config_resolves_def build_enigma_def Let_def)

lemma build_enigma_only_resolved: "build_enigma cfg = Inr e \<Longrightarrow> config_resolves cfg"
  by (auto simp: config_resolves_def build_enigma_def Let_def split: option.splits)

lemma transform_loop_ok: "enigma_ok e \<Longrightarrow> enigma_ok (fst (transform_loop e s))"
proof (induction s arbitrary: e)
  case Nil
  then show ?case by simp
next
  case (Cons c cs)
  show ?case
  proof (cases "is_letter c")
    case True
    from transform_char_letter [OF Cons.prems True] obtain d where
      d: "transform_char e c = (step e, [d])" by blast
    have "enigma_ok (fst (transform_loop (step e) cs))"
      using Cons.prems by (intro Cons.IH step_ok)
    then show ?thesis using d by (simp add: case_prod_unfold Let_def)
  next
    case False
    have "enigma_ok (fst (transform_loop e cs))" using Cons.prems by (rule Cons.IH)
    then show ?thesis using False by (simp add: transform_char_other case_prod_unfold Let_def)
  qed
qed

lemma transform_loop_positions:
  "enigma_ok e \<Longrightarrow>
     length (snd (transform_loop e s)) = length s \<and>
     (\<forall>i < length s. if is_letter (s ! i) then is_letter (snd (transform_loop e s) ! i)
                      else snd (transform_loop e s) ! i = s ! i)"
proof (induction s arbitrary: e)
  case Nil
  then show ?case by simp
next
  case (Cons c cs)
  show ?case
  proof (cases "is_letter c")
    case True
    from transform_char_letter [OF Cons.prems True] obtain d where
      d: "transform_char e c = (step e, [d])" "is_letter d" by blast
    have ih: "length (snd (transform_loop (step e) cs)) = length cs \<and>
       (\<forall>i < length cs. if is_letter (cs ! i) then is_letter (snd (transform_loop (step e) cs) ! i)
                      else snd (transform_loop (step e) cs) ! i = cs ! i)"
      using Cons.prems by (intro Cons.IH step_ok)
    have eq: "snd (transform_loop e (c # cs)) = d # snd (transform_loop (step e) cs)"
      using d by (simp add: case_prod_unfold Let_def)
    show ?thesis unfolding eq using ih d(2) True by (auto simp: nth_Cons split: nat.splits)
  next
    case False
    have ih: "length (snd (transform_loop e cs)) = length cs \<and>
       (\<forall>i < length cs. if is_letter (cs ! i) then is_letter (snd (transform_loop e cs) ! i)
                      else snd (transform_loop e cs) ! i = cs ! i)"
      using Cons.prems by (rule Cons.IH)
    have eq: "snd (transform_loop e (c # cs)) = c # snd (transform_loop e cs)"
      using False by (simp add: transform_char_other case_prod_unfold Let_def)
    show ?thesis unfolding eq using ih False by (auto simp: nth_Cons split: nat.splits)
  qed
qed

lemma swap_is_exchange:
  assumes d: "distinct l" and a: "A \<in> set l" and b: "B \<in> set l"
  shows "l[nat (indexOf l A) := l ! nat (indexOf l B), nat (indexOf l B) := l ! nat (indexOf l A)]
         = map (\<lambda>c. if c = A then B else if c = B then A else c) l"
proof -
  let ?i = "nat (indexOf l A)" and ?j = "nat (indexOf l B)"
  from indexOf_present [OF a] have i: "?i < length l" "l ! ?i = A" by auto
  from indexOf_present [OF b] have j: "?j < length l" "l ! ?j = B" by auto
  show ?thesis
  proof (rule nth_equalityI)
    show "length (l[?i := l ! ?j, ?j := l ! ?i]) = length (map (\<lambda>c. if c = A then B else if c = B then A else c) l)"
      by simp
  next
    fix k assume "k < length (l[?i := l ! ?j, ?j := l ! ?i])"
    then have k: "k < length l" by simp
    have ka: "l ! k = A \<longleftrightarrow> k = ?i" using d k i by (metis nth_eq_iff_index_eq)
    have kb: "l ! k = B \<longleftrightarrow> k = ?j" using d k j by (metis nth_eq_iff_index_eq)
    show "l[?i := l ! ?j, ?j := l ! ?i] ! k = map (\<lambda>c. if c = A then B else if c = B then A else c) l ! k"
      using k i j ka kb by (auto simp: nth_list_update)
  qed
qed

lemma plug_pair_exchange:
  assumes "table_ok l"
  shows "plug_pair l pair = map (pair_exchange pair) l"
proof (cases "length pair \<ge> 2 \<and> toUpperCase (pair ! 0) \<in> set alphabet \<and> toUpperCase (pair ! 1) \<in> set alphabet")
  case True
  from assms have d: "distinct l" and s: "set l = set alphabet" by (simp_all add: table_ok_def)
  from True s have a: "toUpperCase (pair ! 0) \<in> set l" and b: "toUpperCase (pair ! 1) \<in> set l"
    by simp_all
  from indexOf_present [OF a] indexOf_present [OF b]
  have ne: "indexOf l (toUpperCase (pair ! 0)) \<noteq> - 1" "indexOf l (toUpperCase (pair ! 1)) \<noteq> - 1"
    by auto
  have ex: "pair_exchange pair = (\<lambda>c. if c = toUpperCase (pair ! 0) then toUpperCase (pair ! 1)
            else if c = toUpperCase (pair ! 1) then toUpperCase (pair ! 0) else c)"
    using True by (auto simp: pair_exchange_def fun_eq_iff)
  show ?thesis unfolding ex using True ne swap_is_exchange [OF d a b]
    by (simp add: plug_pair_def Let_def)
next
  case False
  from assms have s: "set l = set alphabet" by (simp add: table_ok_def)
  have ex: "pair_exchange pair = (\<lambda>c. c)" using False by (auto simp: pair_exchange_def fun_eq_iff)
  have "plug_pair l pair = l"
  proof (cases "length pair \<ge> 2")
    case True
    with False s have "toUpperCase (pair ! 0) \<notin> set l \<or> toUpperCase (pair ! 1) \<notin> set l" by auto
    then have "indexOf l (toUpperCase (pair ! 0)) = - 1 \<or> indexOf l (toUpperCase (pair ! 1)) = - 1"
      using indexOf_absent by metis
    then show ?thesis by (auto simp: plug_pair_def Let_def)
  next
    case False
    then show ?thesis by (simp add: plug_pair_def)
  qed
  then show ?thesis unfolding ex by simp
qed

lemma foldl_plug_pair_exchange:
  "table_ok l \<Longrightarrow> foldl plug_pair l ps = foldl (\<lambda>t pair. map (pair_exchange pair) t) l ps"
proof (induction ps arbitrary: l)
  case Nil
  then show ?case by simp
next
  case (Cons p ps)
  have "table_ok (plug_pair l p)" using Cons.prems by (rule plug_pair_ok)
  from Cons.IH [OF this] plug_pair_exchange [OF Cons.prems, of p] show ?case by simp
qed

section \<open>Pattern matching\<close>

lemma first_some_SomeD: "first_some f xs = Some y \<Longrightarrow> \<exists>x \<in> set xs. f x = Some y"
  by (induction xs) (auto split: option.splits)

lemma first_some_all_None: "(\<And>x. x \<in> set xs \<Longrightarrow> f x = None) \<Longrightarrow> first_some f xs = None"
  by (induction xs) auto


lemma match_lit_chars:
  "match_items rx prev s = Some ps \<Longrightarrow> Lit l \<in> set rx \<Longrightarrow> set l \<subseteq> set s"
proof (induction rx prev s arbitrary: ps rule: match_items.induct)
  case (1 prev s)
  then show ?case by simp
next
  case (2 l0 rest prev s)
  from "2.prems"(1) have p: "prefix l0 s" by (simp split: if_splits)
  with "2.prems"(1) obtain ps' where
    m: "match_items rest (last_char prev l0) (drop (length l0) s) = Some ps'" by auto
  show ?case
  proof (cases "l = l0")
    case True
    with p show ?thesis by (simp add: set_mono_prefix)
  next
    case False
    with "2.prems"(2) have "Lit l \<in> set rest" by simp
    from "2.IH" [OF p m this] set_drop_subset [of "length l0" s] show ?thesis by blast
  qed
next
  case (3 alts rest prev s)
  from "3.prems"(1) first_some_SomeD obtain a where
    a: "a \<in> set alts" "(if prefix a s
            then map_option (Cons a) (match_items rest (last_char prev a) (drop (length a) s))
            else None) = Some ps" by fastforce
  then have p: "prefix a s" by (simp split: if_splits)
  with a(2) obtain ps' where
    m: "match_items rest (last_char prev a) (drop (length a) s) = Some ps'" by auto
  from "3.prems"(2) have "Lit l \<in> set rest" by simp
  from "3.IH" [OF p m this] set_drop_subset [of "length a" s] show ?case by blast
next
  case (4 c q rest prev s)
  from "4.prems"(1) first_some_SomeD obtain k where
    "map_option (Cons (take k s)) (match_items rest (last_char prev (take k s)) (drop k s)) = Some ps"
    by fastforce
  then obtain ps' where
    m: "match_items rest (last_char prev (take k s)) (drop k s) = Some ps'" by auto
  from "4.prems"(2) have "Lit l \<in> set rest" by simp
  from "4.IH" [OF m this] set_drop_subset [of k s] show ?case by blast
next
  case (5 rest prev s)
  from "5.prems"(1) have w: "word_boundary prev s" by (simp split: if_splits)
  with "5.prems"(1) obtain ps' where m: "match_items rest prev s = Some ps'" by auto
  from "5.prems"(2) have "Lit l \<in> set rest" by simp
  from "5.IH" [OF w m this] show ?case .
qed

lemma replace_from_no_match:
  "(\<And>prev' s'. suffix s' s \<Longrightarrow> match_items rx prev' s' = None) \<Longrightarrow> replace_from rx f prev 0 s = s"
proof (induction s arbitrary: prev)
  case Nil
  have "match_items rx prev [] = None" by (rule Nil) simp
  then show ?case by simp
next
  case (Cons c cs)
  have 1: "match_items rx prev (c # cs) = None" by (rule Cons.prems) simp
  have "replace_from rx f (Some c) 0 cs = cs"
  proof (rule Cons.IH)
    fix prev' s' assume "suffix s' cs"
    then have "suffix s' (c # cs)" by (rule suffix_ConsI)
    then show "match_items rx prev' s' = None" by (rule Cons.prems)
  qed
  with 1 show ?case by simp
qed

lemma replace_all_missing_char:
  assumes "Lit l \<in> set rx" "c \<in> set l" "c \<notin> set s"
  shows "replace_all rx f s = s"
  unfolding replace_all_def
proof (rule replace_from_no_match)
  fix prev' s' assume sf: "suffix s' s"
  show "match_items rx prev' s' = None"
  proof (cases "match_items rx prev' s'")
    case None
    then show ?thesis .
  next
    case (Some ps)
    from match_lit_chars [OF Some assms(1)] assms(2) have "c \<in> set s'" by blast
    with set_mono_suffix [OF sf] assms(3) show ?thesis by blast
  qed
qed

lemma removeObfuscation_without_closers:
  assumes "CHR '')'' \<notin> set code" "CHR ''}'' \<notin> set code"
  shows "removeObfuscation code = code"
proof -
  have 1: "replace_all junk_function_regex f code = code" for f
    by (rule replace_all_missing_char [of "''}''" _ "CHR ''}''"]) (simp_all add: junk_function_regex_def assms)
  have 2: "replace_all timing_regex f code = code" for f
    by (rule replace_all_missing_char [of "''const _t = performance.now();''" _ "CHR '')''"])
       (simp_all add: timing_regex_def assms)
  have 3: "replace_all even_regex f code = code" for f
    by (rule replace_all_missing_char [of "''}''" _ "CHR ''}''"]) (simp_all add: even_regex_def assms)
  have 4: "replace_all try_regex f code = code" for f
    by (rule replace_all_missing_char [of "''}''" _ "CHR ''}''"]) (simp_all add: try_regex_def assms)
  have 5: "replace_all hidden_regex f code = code" for f
    by (rule replace_all_missing_char [of "'')''" _ "CHR '')''"]) (simp_all add: hidden_regex_def assms)
  show ?thesis by (simp add: removeObfuscation_def 1 2 3 4 5)
qed


lemma last_char_append: "last_char (last_char prev xs) ys = last_char prev (xs @ ys)"
  by (simp add: last_char_def)














lemma takeWhile_short:
  assumes "x \<in> set xs" "\<not> P x"
  shows "length (takeWhile P (xs @ ys)) < length xs"
proof -
  have e: "takeWhile P (xs @ ys) = takeWhile P xs" using assms by (rule takeWhile_append1)
  have "takeWhile P xs \<noteq> xs" using assms by (auto simp: takeWhile_eq_all_conv)
  moreover have "length (takeWhile P xs) \<le> length xs" by (rule length_takeWhile_le)
  moreover have "takeWhile P xs = take (length (takeWhile P xs)) xs" by (rule takeWhile_eq_take)
  ultimately have "length (takeWhile P xs) < length xs"
    by (metis le_neq_implies_less take_all order_refl)
  with e show ?thesis by simp
qed

text \<open>The operand class of the arithmetic patterns admits the letter w and the dot only.\<close>

lemma arith_regex_first_char:
  assumes "match_items (arith_regex operator) prev s = Some ps"
  shows "\<exists>c cs. s = c # cs \<and> c \<in> set ''w.''"
proof -
  let ?n = "length (takeWhile (in_cls (Chars ''w.'')) s)"
  from assms first_some_SomeD obtain k where "k \<in> set (counts Plus ?n)"
    unfolding arith_regex_def match_items.simps by fastforce
  then have "1 \<le> ?n" by auto
  then obtain c cs where t: "takeWhile (in_cls (Chars ''w.'')) s = c # cs"
    by (cases "takeWhile (in_cls (Chars ''w.'')) s") auto
  then have "c \<in> set (takeWhile (in_cls (Chars ''w.'')) s)" by simp
  then have c: "in_cls (Chars ''w.'') c" by (rule set_takeWhileD [THEN conjunct2])
  from t obtain cs' where "s = c # cs'" by (cases s) (auto split: if_splits)
  with c show ?thesis by simp
qed

lemma replace_all_arith_regex_id:
  assumes "CHR ''w'' \<notin> set code" "CHR ''.'' \<notin> set code"
  shows "replace_all (arith_regex operator) f code = code"
  unfolding replace_all_def
proof (rule replace_from_no_match)
  fix prev' s' assume sf: "suffix s' code"
  show "match_items (arith_regex operator) prev' s' = None"
  proof (cases "match_items (arith_regex operator) prev' s'")
    case None
    then show ?thesis .
  next
    case (Some ps)
    from arith_regex_first_char [OF Some] obtain c cs where "s' = c # cs" "c \<in> set ''w.''" by blast
    with set_mono_suffix [OF sf] assms show ?thesis by auto
  qed
qed

lemma encodeArithmetic_only_w_operands:
  assumes "CHR ''w'' \<notin> set code" "CHR ''.'' \<notin> set code"
  shows "encodeArithmetic nf code = code"
  by (simp add: encodeArithmetic_def replace_all_arith_regex_id [OF assms])

section \<open>Fixed points of the removal pass\<close>












section \<open>Wrapping and unwrapping declarations\<close>

lemma first_some_cong_set:
  "(\<And>x. x \<in> set xs \<Longrightarrow> f x = g x) \<Longrightarrow> first_some f xs = first_some g xs"
proof (induction xs)
  case Nil
  then show ?case by simp
next
  case (Cons a xs)
  have "f a = g a" by (rule Cons.prems) simp
  moreover have "first_some f xs = first_some g xs" by (rule Cons.IH) (simp add: Cons.prems)
  ultimately show ?case by (simp split: option.split)
qed




lemma match_items_context_free:
  "(\<And>it. it \<in> set rx \<Longrightarrow> it \<noteq> WordB) \<Longrightarrow> match_items rx p s = match_items rx p' s"
proof (induction rx arbitrary: s p p')
  case Nil
  then show ?case by simp
next
  case (Cons it rx)
  have ih: "match_items rx q s' = match_items rx q' s'" for q s' q'
    by (rule Cons.IH) (simp add: Cons.prems)
  show ?case
  proof (cases it)
    case (Lit l)
    with ih [of "last_char p l" "drop (length l) s" "last_char p' l"] show ?thesis by simp
  next
    case (Alt alts)
    have "first_some
       (\<lambda>a. if prefix a s
            then map_option (Cons a) (match_items rx (last_char p a) (drop (length a) s))
            else None) alts
      = first_some
       (\<lambda>a. if prefix a s
            then map_option (Cons a) (match_items rx (last_char p' a) (drop (length a) s))
            else None) alts"
    proof (rule first_some_cong_set)
      fix a
      show "(if prefix a s
            then map_option (Cons a) (match_items rx (last_char p a) (drop (length a) s))
            else None)
         = (if prefix a s
            then map_option (Cons a) (match_items rx (last_char p' a) (drop (length a) s))
            else None)"
        using ih [of "last_char p a" "drop (length a) s" "last_char p' a"] by simp
    qed
    with Alt show ?thesis by simp
  next
    case (Rep cl q)
    have "first_some
       (\<lambda>k. map_option (Cons (take k s)) (match_items rx (last_char p (take k s)) (drop k s)))
       (counts q (length (takeWhile (in_cls cl) s)))
      = first_some
       (\<lambda>k. map_option (Cons (take k s)) (match_items rx (last_char p' (take k s)) (drop k s)))
       (counts q (length (takeWhile (in_cls cl) s)))"
    proof (rule first_some_cong_set)
      fix k
      show "map_option (Cons (take k s)) (match_items rx (last_char p (take k s)) (drop k s))
          = map_option (Cons (take k s)) (match_items rx (last_char p' (take k s)) (drop k s))"
        using ih [of "last_char p (take k s)" "drop k s" "last_char p' (take k s)"] by simp
    qed
    with Rep show ?thesis by simp
  next
    case WordB
    with Cons.prems [of WordB] show ?thesis by simp
  qed
qed

lemma matches_somewhere_context_free:
  assumes "\<And>it. it \<in> set rx \<Longrightarrow> it \<noteq> WordB"
  shows "matches_somewhere rx p s = matches_somewhere rx p' s"
proof (induction s arbitrary: p p')
  case Nil
  show ?case using match_items_context_free [OF assms, where p = p and s = "[]" and p' = p'] by simp
next
  case (Cons c cs)
  show ?case using match_items_context_free [OF assms, where p = p and s = "c # cs" and p' = p'] Cons [of "Some c" "Some c"]
    by simp
qed
































section \<open>The claims\<close>

text \<open>
  Claim C1 (self-inverse). For every configuration whose three rotor names and reflector
  name resolve to known wirings and for every text, the codec on a fresh engine of the
  configuration returns a text that the codec, on another fresh engine of the same
  configuration, turns back into the original, character for character, case and
  punctuation included.
\<close>

theorem self_inverse:
  assumes "config_resolves cfg"
  shows "\<exists>t. enigmaObfuscate s cfg True = Inr t \<and> enigmaObfuscate t cfg False = Inr s"
proof -
  from build_enigma_resolves [OF assms] obtain e where e: "build_enigma cfg = Inr e" by blast
  then have "enigma_ok e" by (rule build_enigma_ok)
  then have "transform_loop e (snd (transform_loop e s)) = (fst (transform_loop e s), s)"
    by (rule transform_loop_involution)
  then show ?thesis using e by (simp add: enigmaObfuscate_def)
qed

theorem self_inverse_witness:
  "enigmaObfuscate ''Hello, World!''
     \<lparr>rotors = ''I-II-III'', rotorStart = ''MCK'', rings = ''ABC'', plugboard = ''AB CD EF'',
      reflector = ''B''\<rparr> True = Inr ''Ffpkf, Afgoj!'' \<and>
   enigmaObfuscate ''Ffpkf, Afgoj!''
     \<lparr>rotors = ''I-II-III'', rotorStart = ''MCK'', rings = ''ABC'', plugboard = ''AB CD EF'',
      reflector = ''B''\<rparr> False = Inr ''Hello, World!''"
proof -
  let ?c = "\<lparr>rotors = ''I-II-III'', rotorStart = ''MCK'', rings = ''ABC'', plugboard = ''AB CD EF'',
      reflector = ''B''\<rparr>"
  have h: "config_resolves ?c" by code_simp
  have 1: "enigmaObfuscate ''Hello, World!'' ?c True = Inr ''Ffpkf, Afgoj!''" by code_simp
  from self_inverse [OF h, of "''Hello, World!''"] 1 show ?thesis by simp
qed

text \<open>
  Claim C2 (plugboard conflicts), as amended. The claimed first-applied-wins policy does
  not hold: no pair is skipped for sharing a letter with an earlier one. For every pair
  string the constructor applies every pair that names two letters, in order, each
  exchanging its two letters in the table the earlier pairs left (a token of fewer than two
  characters, or with a character that is no letter, changes nothing); the resulting
  table is the alphabet mapped through the pairs' exchanges one after the other.
\<close>

theorem plugboard_applies_every_pair:
  "pb_left (new_Plugboard pairsStr) =
     foldl (\<lambda>t pair. map (pair_exchange pair) t) alphabet (split_on CHR '' '' (trim pairsStr))"
  by (simp add: new_Plugboard_def foldl_plug_pair_exchange alphabet_ok)

theorem plugboard_applies_every_pair_witness:
  "pb_left (new_Plugboard ''AB AC'') = map (pair_exchange ''AC'') (map (pair_exchange ''AB'') alphabet) \<and>
   pb_left (new_Plugboard ''AB AC'') = ''BCADEFGHIJKLMNOPQRSTUVWXYZ''"
proof -
  have s: "split_on CHR '' '' (trim ''AB AC'') = [''AB'', ''AC'']" by code_simp
  have v: "map (pair_exchange ''AC'') (map (pair_exchange ''AB'') alphabet) = ''BCADEFGHIJKLMNOPQRSTUVWXYZ''"
    by code_simp
  from plugboard_applies_every_pair [of "''AB AC''"] s v show ?thesis by simp
qed

theorem plugboard_first_applied_wins_counterexample:
  "first_applied_wins [] (split_on CHR '' '' (trim ''AB AC'')) = [''AB''] \<and>
   first_applied_wins_table ''AB AC'' = ''BACDEFGHIJKLMNOPQRSTUVWXYZ'' \<and>
   pb_left (new_Plugboard ''AB AC'') = ''BCADEFGHIJKLMNOPQRSTUVWXYZ'' \<and>
   pb_left (new_Plugboard ''AB AC'') \<noteq> first_applied_wins_table ''AB AC''"
  by code_simp

text \<open>
  Claim C3 (arithmetic re-encoding) fails on the code: the operand class of the three
  patterns is \<^verbatim>\<open>[w.]\<close>, the letter w and the dot, not \<^verbatim>\<open>[\w.]\<close>, so an addition,
  subtraction or multiplication whose left operand is an ordinary name is left as it is,
  whatever the host's number formatting (a text without the letter w and without a dot
  is never changed at all).
\<close>

theorem encodeArithmetic_leaves_ordinary_names:
  "\<forall>nf. encodeArithmetic nf ''x + 5'' = ''x + 5'' \<and>
        encodeArithmetic nf ''total - 1'' = ''total - 1'' \<and>
        encodeArithmetic nf ''n * 8'' = ''n * 8''"
proof
  fix nf
  have "encodeArithmetic nf ''x + 5'' = ''x + 5''" by code_simp
  moreover have "encodeArithmetic nf ''total - 1'' = ''total - 1''" by code_simp
  moreover have "encodeArithmetic nf ''n * 8'' = ''n * 8''" by code_simp
  ultimately show "encodeArithmetic nf ''x + 5'' = ''x + 5'' \<and>
        encodeArithmetic nf ''total - 1'' = ''total - 1'' \<and>
        encodeArithmetic nf ''n * 8'' = ''n * 8''" by blast
qed

text \<open>
  Claim C4 (non-letter pass-through). Whatever the engine, a character that is not a
  letter is appended as it is and the engine, so all three rotors, stays as it was. For
  every text and configuration the codec's output, when there is one (there is one when
  the names resolve), has the length of the input, carries each non-letter of the input
  unchanged at its position, and has a letter wherever the input has one.
\<close>

theorem non_letter_pass_through:
  "(\<forall>e c. \<not> is_letter c \<longrightarrow> transform_char e c = (e, [c])) \<and>
   (config_resolves cfg \<longrightarrow> (\<exists>t. enigmaObfuscate s cfg b = Inr t)) \<and>
   (\<forall>t. enigmaObfuscate s cfg b = Inr t \<longrightarrow>
      length t = length s \<and>
      (\<forall>i < length s. if is_letter (s ! i) then is_letter (t ! i) else t ! i = s ! i))"
proof (intro conjI allI impI)
  fix e c assume "\<not> is_letter c"
  then show "transform_char e c = (e, [c])" by (rule transform_char_other)
next
  assume "config_resolves cfg"
  from build_enigma_resolves [OF this] show "\<exists>t. enigmaObfuscate s cfg b = Inr t"
    by (auto simp: enigmaObfuscate_def)
next
  fix t assume t: "enigmaObfuscate s cfg b = Inr t"
  then obtain e where e: "build_enigma cfg = Inr e" and eq: "t = snd (transform_loop e s)"
    by (auto simp: enigmaObfuscate_def split: sum.splits)
  from e have ok: "enigma_ok e" by (rule build_enigma_ok)
  from transform_loop_positions [OF ok, of s]
  show "length t = length s" unfolding eq by simp
next
  fix t i assume t: "enigmaObfuscate s cfg b = Inr t" and i: "i < length s"
  then obtain e where e: "build_enigma cfg = Inr e" and eq: "t = snd (transform_loop e s)"
    by (auto simp: enigmaObfuscate_def split: sum.splits)
  from e have ok: "enigma_ok e" by (rule build_enigma_ok)
  from transform_loop_positions [OF ok, of s] i
  show "if is_letter (s ! i) then is_letter (t ! i) else t ! i = s ! i" unfolding eq by simp
qed

theorem non_letter_pass_through_witness:
  "transform_char
     \<lparr>re = new_Reflector ''YRUHQSLDPXNGOKMIEBFZCWVJAT'',
      r1 = new_Rotor ''EKMFLGDQVZNTOWYHXUSPAIBRCJ'' ''Q'',
      r2 = new_Rotor ''AJDKSIRUXBLHWTMCQGZNPYFVOE'' ''E'',
      r3 = new_Rotor ''BDFHJLCPRTXVZNYEIWGAKMUSQO'' ''V'',
      pb = new_Plugboard ''''\<rparr> CHR ''7'' =
     (\<lparr>re = new_Reflector ''YRUHQSLDPXNGOKMIEBFZCWVJAT'',
      r1 = new_Rotor ''EKMFLGDQVZNTOWYHXUSPAIBRCJ'' ''Q'',
      r2 = new_Rotor ''AJDKSIRUXBLHWTMCQGZNPYFVOE'' ''E'',
      r3 = new_Rotor ''BDFHJLCPRTXVZNYEIWGAKMUSQO'' ''V'',
      pb = new_Plugboard ''''\<rparr>, ''7'') \<and>
   enigmaObfuscate ''a1, b2!''
     \<lparr>rotors = ''I-II-III'', rotorStart = ''AAA'', rings = ''AAA'', plugboard = '''',
      reflector = ''B''\<rparr> True = Inr ''b1, j2!'' \<and>
   length ''b1, j2!'' = length ''a1, b2!'' \<and> ''b1, j2!'' ! 1 = ''a1, b2!'' ! 1"
proof -
  let ?c = "\<lparr>rotors = ''I-II-III'', rotorStart = ''AAA'', rings = ''AAA'', plugboard = '''',
      reflector = ''B''\<rparr>"
  let ?e = "\<lparr>re = new_Reflector ''YRUHQSLDPXNGOKMIEBFZCWVJAT'',
      r1 = new_Rotor ''EKMFLGDQVZNTOWYHXUSPAIBRCJ'' ''Q'',
      r2 = new_Rotor ''AJDKSIRUXBLHWTMCQGZNPYFVOE'' ''E'',
      r3 = new_Rotor ''BDFHJLCPRTXVZNYEIWGAKMUSQO'' ''V'',
      pb = new_Plugboard ''''\<rparr>"
  have n: "\<not> is_letter CHR ''7''" by code_simp
  have n1: "\<not> is_letter (''a1, b2!'' ! 1)" by code_simp
  note t0 = non_letter_pass_through [of ?c "''a1, b2!''" True]
  from t0 n have 1: "transform_char ?e CHR ''7'' = (?e, ''7'')" by blast
  have 2: "enigmaObfuscate ''a1, b2!'' ?c True = Inr ''b1, j2!''" by code_simp
  from t0 2 have 3: "length ''b1, j2!'' = length ''a1, b2!'' \<and>
      (\<forall>i < length ''a1, b2!''. if is_letter (''a1, b2!'' ! i) then is_letter (''b1, j2!'' ! i)
          else ''b1, j2!'' ! i = ''a1, b2!'' ! i)" by blast
  then have "if is_letter (''a1, b2!'' ! 1) then is_letter (''b1, j2!'' ! 1)
          else ''b1, j2!'' ! 1 = ''a1, b2!'' ! 1" by simp
  with n1 have 4: "''b1, j2!'' ! 1 = ''a1, b2!'' ! 1" by simp
  from 1 2 3 4 show ?thesis by blast
qed

text \<open>
  Claim C5 (one encipher call). Whatever the engine and the letter passed, encipher
  first advances the right rotor (r3) by one position, both of its tables shifting left by
  one with the notch kept, and leaves the left and middle rotors, the reflector and the
  plugboard as they were. The signal then goes, through the advanced rotor, keyboard
  forward, plugboard forward, r3, r2, r1 forward, reflector, r1, r2, r3 backward, plugboard
  backward, and the letter returned is the keyboard's letter of the last position; the path
  returned holds exactly these 10 positions in order. An uppercase letter enters at its
  alphabet position.
\<close>

theorem encipher_signal_path:
  assumes "encipher e l = (e', res)"
  shows "left (r3 e') = rotate1 (left (r3 e)) \<and> right (r3 e') = rotate1 (right (r3 e)) \<and>
         notch (r3 e') = notch (r3 e) \<and>
         r1 e' = r1 e \<and> r2 e' = r2 e \<and> re e' = re e \<and> pb e' = pb e \<and>
         length (path res) = 10 \<and>
         path res ! 0 = kb_forward l \<and>
         path res ! 1 = pb_forward (pb e) (path res ! 0) \<and>
         path res ! 2 = forward (r3 e') (path res ! 1) \<and>
         path res ! 3 = forward (r2 e) (path res ! 2) \<and>
         path res ! 4 = forward (r1 e) (path res ! 3) \<and>
         path res ! 5 = reflect (re e) (path res ! 4) \<and>
         path res ! 6 = backward (r1 e) (path res ! 5) \<and>
         path res ! 7 = backward (r2 e) (path res ! 6) \<and>
         path res ! 8 = backward (r3 e') (path res ! 7) \<and>
         path res ! 9 = pb_backward (pb e) (path res ! 8) \<and>
         letter res = kb_backward (path res ! 9) \<and>
         (\<forall>u \<in> set alphabet. l = [u] \<longrightarrow> path res ! 0 = indexOf alphabet u \<and> 0 \<le> path res ! 0 \<and> path res ! 0 < 26)"
proof -
  have sp: "shift_push xs = rotate1 xs" for xs :: "char list" by (cases xs) simp_all
  have one: "rotate_rotor 1 True r = rotate_once True r" for r
    by (simp add: rotate_rotor_def)
  from assms have e': "e' = e\<lparr>r3 := rotate_once True (r3 e)\<rparr>"
    by (simp add: encipher_def Let_def one)
  have rot: "left (r3 e') = rotate1 (left (r3 e))" "right (r3 e') = rotate1 (right (r3 e))"
    "notch (r3 e') = notch (r3 e)" "r1 e' = r1 e" "r2 e' = r2 e" "re e' = re e" "pb e' = pb e"
    unfolding e' by (simp_all add: rotate_once_def sp)
  from assms have p: "path res =
     (let s0 = kb_forward l; s1 = pb_forward (pb e) s0; s2 = forward (r3 e') s1;
          s3 = forward (r2 e) s2; s4 = forward (r1 e) s3; s5 = reflect (re e) s4;
          s6 = backward (r1 e) s5; s7 = backward (r2 e) s6; s8 = backward (r3 e') s7;
          s9 = pb_backward (pb e) s8
      in [s0, s1, s2, s3, s4, s5, s6, s7, s8, s9])"
    and lt: "letter res = kb_backward (path res ! 9)"
    unfolding e' by (auto simp: encipher_def Let_def one)
  have up: "\<forall>u \<in> set alphabet. l = [u] \<longrightarrow> path res ! 0 = indexOf alphabet u \<and> 0 \<le> path res ! 0 \<and> path res ! 0 < 26"
  proof (intro ballI impI)
    fix u assume u: "u \<in> set alphabet" and l: "l = [u]"
    have "length alphabet = 26" by (simp add: alphabet_def)
    with indexOf_present [OF u] p l
    show "path res ! 0 = indexOf alphabet u \<and> 0 \<le> path res ! 0 \<and> path res ! 0 < 26"
      by (simp add: Let_def kb_forward_def str_indexOf_single)
  qed
  have nths: "length (path res) = 10"
         "path res ! 0 = kb_forward l"
         "path res ! 1 = pb_forward (pb e) (path res ! 0)"
         "path res ! 2 = forward (r3 e') (path res ! 1)"
         "path res ! 3 = forward (r2 e) (path res ! 2)"
         "path res ! 4 = forward (r1 e) (path res ! 3)"
         "path res ! 5 = reflect (re e) (path res ! 4)"
         "path res ! 6 = backward (r1 e) (path res ! 5)"
         "path res ! 7 = backward (r2 e) (path res ! 6)"
         "path res ! 8 = backward (r3 e') (path res ! 7)"
         "path res ! 9 = pb_backward (pb e) (path res ! 8)"
    unfolding p by (simp_all add: Let_def)
  from rot nths lt up show ?thesis by blast
qed

theorem encipher_signal_path_witness:
  "length (path (snd (encipher
      \<lparr>re = new_Reflector ''YRUHQSLDPXNGOKMIEBFZCWVJAT'',
       r1 = new_Rotor ''EKMFLGDQVZNTOWYHXUSPAIBRCJ'' ''Q'',
       r2 = new_Rotor ''AJDKSIRUXBLHWTMCQGZNPYFVOE'' ''E'',
       r3 = new_Rotor ''BDFHJLCPRTXVZNYEIWGAKMUSQO'' ''V'',
       pb = new_Plugboard ''''\<rparr> ''A''))) = 10 \<and>
   letter (snd (encipher
      \<lparr>re = new_Reflector ''YRUHQSLDPXNGOKMIEBFZCWVJAT'',
       r1 = new_Rotor ''EKMFLGDQVZNTOWYHXUSPAIBRCJ'' ''Q'',
       r2 = new_Rotor ''AJDKSIRUXBLHWTMCQGZNPYFVOE'' ''E'',
       r3 = new_Rotor ''BDFHJLCPRTXVZNYEIWGAKMUSQO'' ''V'',
       pb = new_Plugboard ''''\<rparr> ''A'')) = ''B''"
proof -
  let ?e = "\<lparr>re = new_Reflector ''YRUHQSLDPXNGOKMIEBFZCWVJAT'',
       r1 = new_Rotor ''EKMFLGDQVZNTOWYHXUSPAIBRCJ'' ''Q'',
       r2 = new_Rotor ''AJDKSIRUXBLHWTMCQGZNPYFVOE'' ''E'',
       r3 = new_Rotor ''BDFHJLCPRTXVZNYEIWGAKMUSQO'' ''V'',
       pb = new_Plugboard ''''\<rparr>"
  have h: "encipher ?e ''A'' = (fst (encipher ?e ''A''), snd (encipher ?e ''A''))" by simp
  have v: "letter (snd (encipher ?e ''A'')) = ''B''" by code_simp
  from encipher_signal_path [OF h] have "length (path (snd (encipher ?e ''A''))) = 10" by blast
  with v show ?thesis by simp
qed







text \<open>
  Claim C8 (plugboard involution). For every pair string, valid or not, and every
  position in [0,26) the plugboard's forward map yields a position in [0,26) and the
  backward map takes it back to where it started.
\<close>

theorem plugboard_backward_inverts_forward:
  assumes "0 \<le> p" "p < 26"
  shows "0 \<le> pb_forward (new_Plugboard pairsStr) p \<and> pb_forward (new_Plugboard pairsStr) p < 26 \<and>
         pb_backward (new_Plugboard pairsStr) (pb_forward (new_Plugboard pairsStr) p) = p"
proof -
  have r: "in_range p" using assms by (simp add: in_range_def)
  note ok = new_Plugboard_ok [of pairsStr]
  from pb_forward_range [OF ok r] pb_backward_forward [OF ok r]
  show ?thesis by (simp add: in_range_def)
qed

theorem plugboard_backward_inverts_forward_witness:
  "pb_forward (new_Plugboard ''AB CD'') 0 = 1 \<and> pb_backward (new_Plugboard ''AB CD'') 1 = 0"
proof -
  have v: "pb_forward (new_Plugboard ''AB CD'') 0 = 1" by code_simp
  have "(0::int) \<le> 0" "(0::int) < 26" by simp_all
  from plugboard_backward_inverts_forward [OF this, of "''AB CD''"] v show ?thesis by simp
qed

text \<open>
  Claim C9 (rotor tables stay permutations). When both tables of a rotor hold every one
  of the 26 uppercase letters exactly once, they still do after rotate(n, direction) for
  any n and either direction, after rotateToLetter(letter) and after setRing(n); and on
  such a rotor the forward and the backward lookup of a position in [0,26) is a position
  in [0,26).
\<close>

theorem rotor_operations_keep_permutations:
  assumes "rotor_ok r"
  shows "rotor_ok (rotate_rotor n fwd r) \<and> rotor_ok (rotateToLetter l r) \<and> rotor_ok (setRing m r) \<and>
         (\<forall>s. 0 \<le> s \<and> s < 26 \<longrightarrow>
            0 \<le> forward r s \<and> forward r s < 26 \<and> 0 \<le> backward r s \<and> backward r s < 26)"
proof -
  have "0 \<le> forward r s \<and> forward r s < 26 \<and> 0 \<le> backward r s \<and> backward r s < 26"
    if "0 \<le> s \<and> s < 26" for s
  proof -
    from that have "in_range s" by (simp add: in_range_def)
    from forward_range [OF assms this] backward_range [OF assms this]
    show ?thesis by (simp add: in_range_def)
  qed
  with rotate_rotor_ok [OF assms] rotateToLetter_ok [OF assms] setRing_ok [OF assms]
  show ?thesis by blast
qed

theorem rotor_operations_keep_permutations_witness:
  "rotor_ok (rotate_rotor 30 False (new_Rotor ''EKMFLGDQVZNTOWYHXUSPAIBRCJ'' ''Q'')) \<and>
   rotor_ok (rotateToLetter ''K'' (new_Rotor ''EKMFLGDQVZNTOWYHXUSPAIBRCJ'' ''Q'')) \<and>
   rotor_ok (setRing 5 (new_Rotor ''EKMFLGDQVZNTOWYHXUSPAIBRCJ'' ''Q'')) \<and>
   0 \<le> forward (new_Rotor ''EKMFLGDQVZNTOWYHXUSPAIBRCJ'' ''Q'') 25 \<and>
   forward (new_Rotor ''EKMFLGDQVZNTOWYHXUSPAIBRCJ'' ''Q'') 25 < 26"
proof -
  have h: "rotor_ok (new_Rotor ''EKMFLGDQVZNTOWYHXUSPAIBRCJ'' ''Q'')" by code_simp
  have "(0::int) \<le> 25 \<and> (25::int) < 26" by simp
  with rotor_operations_keep_permutations [OF h, of 30 False "''K''" 5] show ?thesis by blast
qed

text \<open>
  Claim C10 (no letter is enciphered to itself). For every configuration whose names
  resolve (its reflector is then one of A, B, C), whatever text the engine has
  processed before, enciphering an uppercase letter returns one uppercase letter that
  differs from it.
\<close>

theorem encipher_never_identity:
  assumes "config_resolves cfg"
  shows "\<exists>e. build_enigma cfg = Inr e \<and>
           (\<forall>s. \<forall>u \<in> set alphabet. \<exists>v \<in> set alphabet.
              letter (snd (encipher (fst (transform_loop e s)) [u])) = [v] \<and> v \<noteq> u)"
proof -
  from build_enigma_resolves [OF assms] obtain e where e: "build_enigma cfg = Inr e" by blast
  then have ok: "enigma_ok e" by (rule build_enigma_ok)
  have "\<exists>v \<in> set alphabet. letter (snd (encipher (fst (transform_loop e s)) [u])) = [v] \<and> v \<noteq> u"
    if "u \<in> set alphabet" for s u
    using encipher_upper [OF transform_loop_ok [OF ok, of s] that] by blast
  with e show ?thesis by blast
qed

theorem encipher_never_identity_witness:
  "\<exists>e. build_enigma \<lparr>rotors = ''IV-I-V'', rotorStart = ''QEV'', rings = ''BBB'',
           plugboard = ''AZ'', reflector = ''C''\<rparr> = Inr e \<and>
     (\<exists>v \<in> set alphabet. letter (snd (encipher (fst (transform_loop e ''abc'')) ''A'')) = [v] \<and> v \<noteq> CHR ''A'')"
proof -
  have h: "config_resolves \<lparr>rotors = ''IV-I-V'', rotorStart = ''QEV'', rings = ''BBB'',
           plugboard = ''AZ'', reflector = ''C''\<rparr>" by code_simp
  have u: "CHR ''A'' \<in> set alphabet" by (simp add: alphabet_def)
  from encipher_never_identity [OF h] u show ?thesis by blast
qed

end
